theory Spec2Isabelle
  imports Main "HOL-Library.AList"
begin

section \<open>Python strings\<close>

text \<open>
  A Python \<open>str\<close> is a sequence of Unicode code points. A code point is a natural number
  and a string is a list of them; \<open>ustr\<close> reads an ASCII literal. The line feed is 10,
  the space 32, and \<open>. , ! ?\<close> are 46, 44, 33, 63.
\<close>

type_synonym ustring = "nat list"

definition ustr :: "string \<Rightarrow> ustring" where
  "ustr s = map of_char s"

text \<open>
  The Unicode tables of the Python runtime are not part of the repository. What the
  code needs of them beyond ASCII is taken as a parameter: \<open>uni_lower\<close> is
  \<open>str.lower()\<close> on a string with a non-ASCII code point, \<open>uni_word\<close> says whether a
  non-ASCII code point is in the regular-expression class \<open>\w\<close>. Every theorem below
  holds for every such table.
\<close>

record unicode_db =
  uni_lower :: "ustring \<Rightarrow> ustring"
  uni_word :: "nat \<Rightarrow> bool"

definition ascii_db :: unicode_db where
  "ascii_db = \<lparr>uni_lower = (\<lambda>s. s), uni_word = (\<lambda>c. False)\<rparr>"

definition ascii_lower :: "nat \<Rightarrow> nat" where
  "ascii_lower c = (if 65 \<le> c \<and> c \<le> 90 then c + 32 else c)"

definition py_lower :: "unicode_db \<Rightarrow> ustring \<Rightarrow> ustring" where
  "py_lower U s = (if list_all (\<lambda>c. c < 128) s then map ascii_lower s else uni_lower U s)"

text \<open>
  \<open>str.isspace\<close> of one code point, which is also the class \<open>\s\<close> of a \<open>str\<close> pattern:
  U+0009..000D, U+001C..0020, U+0085, U+00A0, U+1680, U+2000..200A, U+2028, U+2029,
  U+202F, U+205F, U+3000.
\<close>

definition isspace :: "nat \<Rightarrow> bool" where
  "isspace c \<longleftrightarrow> (9 \<le> c \<and> c \<le> 13) \<or> (28 \<le> c \<and> c \<le> 32) \<or> c = 133 \<or> c = 160 \<or> c = 5760
     \<or> (8192 \<le> c \<and> c \<le> 8202) \<or> c = 8232 \<or> c = 8233 \<or> c = 8239 \<or> c = 8287 \<or> c = 12288"

text \<open>The class \<open>\w\<close>: ASCII letters, digits and the underscore, and the table beyond ASCII.\<close>

definition isword :: "unicode_db \<Rightarrow> nat \<Rightarrow> bool" where
  "isword U c = (if c < 128
     then (48 \<le> c \<and> c \<le> 57) \<or> (65 \<le> c \<and> c \<le> 90) \<or> (97 \<le> c \<and> c \<le> 122) \<or> c = 95
     else uni_word U c)"

text \<open>\<open>s.split()\<close>: the maximal runs of non-whitespace code points.\<close>

function split_ws :: "ustring \<Rightarrow> ustring list" where
  "split_ws [] = []"
| "split_ws (c # cs) =
     (if isspace c then split_ws cs
      else takeWhile (\<lambda>x. \<not> isspace x) (c # cs) # split_ws (dropWhile (\<lambda>x. \<not> isspace x) cs))"
  by pat_completeness auto
termination
  by (relation "measure length") (auto simp: le_imp_less_Suc length_dropWhile_le)

text \<open>\<open>s.split('\n')\<close>: the pieces between line feeds, at least one piece.\<close>

fun split_nl :: "ustring \<Rightarrow> ustring list" where
  "split_nl [] = [[]]"
| "split_nl (c # cs) =
     (if c = 10 then [] # split_nl cs
      else (case split_nl cs of [] \<Rightarrow> [[c]] | l # ls \<Rightarrow> (c # l) # ls))"

text \<open>\<open>sep.join(xs)\<close>.\<close>

fun join :: "ustring \<Rightarrow> ustring list \<Rightarrow> ustring" where
  "join sep [] = []"
| "join sep [x] = x"
| "join sep (x # y # ys) = x @ sep @ join sep (y # ys)"

text \<open>\<open>s.strip()\<close>: leading and trailing whitespace removed.\<close>

definition strip :: "ustring \<Rightarrow> ustring" where
  "strip s = rev (dropWhile isspace (rev (dropWhile isspace s)))"

text \<open>
  \<open>f.read(n)\<close> called until it returns the empty string: the text in pieces of \<open>n\<close>
  code points. \<open>read(0)\<close> returns the empty string at once.
\<close>

function read_chunks :: "nat \<Rightarrow> ustring \<Rightarrow> ustring list" where
  "read_chunks n s = (if s = [] \<or> n = 0 then [] else take n s # read_chunks n (drop n s))"
  by pat_completeness auto
termination
  by (relation "measure (\<lambda>(n, s). length s)") auto

declare read_chunks.simps [simp del]

definition chunk_size :: nat where
  "chunk_size = 1024 * 1024"

section \<open>Character Sanitizer: \<open>clean_text_streaming\<close>\<close>

text \<open>
  \<open>re.sub(r'\b(gutenberg)\b', '', chunk)\<close>, the only entry of \<open>metadata_patterns\<close>: every
  occurrence of the lower-case word between two word boundaries is deleted, scanning from
  the left. \<open>prevw\<close> says whether the code point before the scanned position is in \<open>\w\<close>.
\<close>

definition gutenberg :: ustring where
  "gutenberg = ustr ''gutenberg''"

function remove_metadata :: "unicode_db \<Rightarrow> bool \<Rightarrow> ustring \<Rightarrow> ustring" where
  "remove_metadata U prevw [] = []"
| "remove_metadata U prevw (c # cs) =
     (if \<not> prevw \<and> take 9 (c # cs) = gutenberg
          \<and> (case drop 9 (c # cs) of [] \<Rightarrow> True | d # ds \<Rightarrow> \<not> isword U d)
      then remove_metadata U True (drop 9 (c # cs))
      else c # remove_metadata U (isword U c) cs)"
  by pat_completeness auto
termination
  by (relation "measure (\<lambda>(U, p, s). length s)") auto

text \<open>The class \<open>[^a-zA-Z\s.,!?\n]\<close> is deleted: what stays is its complement.\<close>

definition allowed_char :: "nat \<Rightarrow> bool" where
  "allowed_char c \<longleftrightarrow> (97 \<le> c \<and> c \<le> 122) \<or> (65 \<le> c \<and> c \<le> 90) \<or> isspace c
     \<or> c = 46 \<or> c = 44 \<or> c = 33 \<or> c = 63 \<or> c = 10"

text \<open>
  The loop over \<open>tokens\<close>: a token is skipped when \<open>prev_token\<close> is truthy (neither
  \<open>None\<close> nor empty) and both are equal in lower case.
\<close>

fun dedup_tokens :: "unicode_db \<Rightarrow> ustring option \<Rightarrow> ustring list \<Rightarrow> ustring list" where
  "dedup_tokens U prev [] = []"
| "dedup_tokens U prev (t # ts) =
     (if (case prev of None \<Rightarrow> False | Some p \<Rightarrow> p \<noteq> [] \<and> py_lower U t = py_lower U p)
      then dedup_tokens U prev ts
      else t # dedup_tokens U (Some t) ts)"

definition dedup_line :: "unicode_db \<Rightarrow> ustring \<Rightarrow> ustring" where
  "dedup_line U line =
     (let dedup = dedup_tokens U None (split_ws line)
      in if dedup \<noteq> [] then join [32] dedup else [])"

text \<open>\<open>re.sub(r' +', ' ', chunk)\<close>: every maximal run of spaces becomes one space.\<close>

function collapse_spaces :: "ustring \<Rightarrow> ustring" where
  "collapse_spaces [] = []"
| "collapse_spaces (c # cs) =
     (if c = 32 then 32 # collapse_spaces (dropWhile (\<lambda>x. x = 32) cs)
      else c # collapse_spaces cs)"
  by pat_completeness auto
termination
  by (relation "measure length") (auto simp: le_imp_less_Suc length_dropWhile_le)

text \<open>The body of the chunk loop, from the chunk read to the chunk written.\<close>

definition clean_chunk :: "unicode_db \<Rightarrow> ustring \<Rightarrow> ustring" where
  "clean_chunk U chunk =
     (let chunk1 = remove_metadata U False chunk;
          cleaned = filter allowed_char chunk1;
          deduplicated_lines = map (dedup_line U) (split_nl cleaned)
      in collapse_spaces (join [10] deduplicated_lines))"

record clean_result =
  cleaned_file :: ustring
  original_chars :: nat
  cleaned_chars :: nat

definition clean_step :: "unicode_db \<Rightarrow> clean_result \<Rightarrow> ustring \<Rightarrow> clean_result" where
  "clean_step U r chunk =
     (let cleaned_chunk = clean_chunk U chunk
      in \<lparr>cleaned_file = cleaned_file r @ cleaned_chunk,
          original_chars = original_chars r + length chunk,
          cleaned_chars = cleaned_chars r + length cleaned_chunk\<rparr>)"

text \<open>
  The input is the text of the input file as \<open>read\<close> decodes it; the result holds the text
  written to the output file and the two counters returned.
\<close>

definition clean_text_streaming :: "unicode_db \<Rightarrow> ustring \<Rightarrow> clean_result" where
  "clean_text_streaming U text =
     foldl (clean_step U) \<lparr>cleaned_file = [], original_chars = 0, cleaned_chars = 0\<rparr>
       (read_chunks chunk_size text)"

section \<open>Line Filter: \<open>process_lines_streaming\<close>\<close>

text \<open>
  \<open>for line in infile\<close>: the lines of the text, each with its line feed, the last one
  without when the text does not end in one.
\<close>

fun file_lines :: "ustring \<Rightarrow> ustring list" where
  "file_lines [] = []"
| "file_lines (c # cs) =
     (if c = 10 then [10] # file_lines cs
      else (case file_lines cs of [] \<Rightarrow> [[c]] | l # ls \<Rightarrow> (c # l) # ls))"

text \<open>
  \<open>word_counts\<close> is the dictionary the loop over \<open>words\<close> builds, in insertion order;
  \<open>max_count\<close> is \<open>max(word_counts.values())\<close>, which the code calls on five words or more.
\<close>

definition count_word :: "unicode_db \<Rightarrow> (ustring \<times> nat) list \<Rightarrow> ustring \<Rightarrow> (ustring \<times> nat) list" where
  "count_word U word_counts word =
     (let word_lower = py_lower U word
      in AList.update word_lower
           ((case map_of word_counts word_lower of None \<Rightarrow> 0 | Some k \<Rightarrow> k) + 1) word_counts)"

definition word_counts :: "unicode_db \<Rightarrow> ustring list \<Rightarrow> (ustring \<times> nat) list" where
  "word_counts U words = foldl (count_word U) [] words"

definition max_count :: "unicode_db \<Rightarrow> ustring list \<Rightarrow> nat" where
  "max_count U words = Max (set (map snd (word_counts U words)))"

text \<open>
  \<open>max_count / len(words) > 0.8\<close> is a comparison of doubles. The quotient of two
  integers is correctly rounded, and the literal is the double \<open>7205759403792794 / 2^53\<close>,
  the nearest to 4/5 and an even one. So the test holds exactly when the quotient lies
  above the midpoint \<open>14411518807585589 / 2^54\<close> between that double and the next: at
  the midpoint itself the quotient rounds to the even neighbour, which is the literal.
\<close>

definition quotient_exceeds_0_8 :: "nat \<Rightarrow> nat \<Rightarrow> bool" where
  "quotient_exceeds_0_8 m n \<longleftrightarrow> 14411518807585589 * n < 18014398509481984 * m"

definition mostly_one_word :: "unicode_db \<Rightarrow> ustring list \<Rightarrow> bool" where
  "mostly_one_word U words \<longleftrightarrow> quotient_exceeds_0_8 (max_count U words) (length words)"

record filter_state =
  seen_lines :: "ustring set"
  removed_single_word :: nat
  duplicate_count :: nat
  removed_repeats :: nat
  total_lines :: nat
  consecutive_empty :: nat
  final_file :: ustring

text \<open>The body of the loop over the lines; every \<open>continue\<close> is a branch that returns the state.\<close>

definition process_line :: "unicode_db \<Rightarrow> filter_state \<Rightarrow> ustring \<Rightarrow> filter_state" where
  "process_line U st raw =
     (let st1 = st\<lparr>total_lines := total_lines st + 1\<rparr>;
          line = strip raw
      in if line = [] then
           (let st2 = st1\<lparr>consecutive_empty := consecutive_empty st1 + 1\<rparr>
            in if consecutive_empty st2 \<le> 2 then st2\<lparr>final_file := final_file st2 @ [10]\<rparr>
               else st2)
         else
           (let st2 = st1\<lparr>consecutive_empty := 0\<rparr>;
                words = split_ws line
            in if length words \<le> 1 then
                 st2\<lparr>removed_single_word := removed_single_word st2 + 1\<rparr>
               else if 5 \<le> length words \<and> mostly_one_word U words then
                 st2\<lparr>removed_repeats := removed_repeats st2 + 1\<rparr>
               else if line \<in> seen_lines st2 then
                 st2\<lparr>duplicate_count := duplicate_count st2 + 1\<rparr>
               else
                 st2\<lparr>seen_lines := insert line (seen_lines st2),
                     final_file := final_file st2 @ line @ [10]\<rparr>))"

definition filter_init :: filter_state where
  "filter_init = \<lparr>seen_lines = {}, removed_single_word = 0, duplicate_count = 0,
     removed_repeats = 0, total_lines = 0, consecutive_empty = 0, final_file = []\<rparr>"

text \<open>
  The input is the text of the sanitized file as it is read; the final state holds the
  text written to the output file and the four counters returned.
\<close>

definition process_lines_streaming :: "unicode_db \<Rightarrow> ustring \<Rightarrow> filter_state" where
  "process_lines_streaming U text = foldl (process_line U) filter_init (file_lines text)"

text \<open>The lines of a written file, without their line feeds.\<close>

definition chomp :: "ustring \<Rightarrow> ustring" where
  "chomp l = (if l = [] then [] else if last l = 10 then butlast l else l)"

definition lines_of :: "ustring \<Rightarrow> ustring list" where
  "lines_of text = map chomp (file_lines text)"

section \<open>Text Extractor and Combiner\<close>

text \<open>
  A \<open>Path\<close> as the code reads it: its attributes \<open>name\<close> and \<open>suffix\<close>. A file on disk
  either cannot be opened, or decodes as UTF-8 to a text, or yields the text of the
  reads that succeed and then fails to decode. A path that is not in the disk does not
  exist.
\<close>

record path =
  name :: ustring
  suffix :: ustring

datatype disk_file = Unreadable | Undecodable ustring | Content ustring

datatype error = FileNotFoundError | PermissionError | UnicodeDecodeError
  | UnicodeEncodeError | JSONDecodeError | TypeError | KeyError

text \<open>
  The values \<open>json.load\<close> returns: a dictionary is the list of its items, with distinct
  keys, and \<open>JNumber\<close> is any number, whose value the code never reads. The parser
  itself belongs to the Python library and is a parameter \<open>jl\<close> of the model, from the
  decoded text of the file to the value, \<open>None\<close> when it raises.
\<close>

datatype json = JNull | JBool bool | JNumber | JStr ustring | JList "json list"
  | JDict "(ustring \<times> json) list"

fun contains :: "ustring \<Rightarrow> ustring \<Rightarrow> bool" where
  "contains pat [] = (pat = [])"
| "contains pat (c # cs) = (take (length pat) (c # cs) = pat \<or> contains pat cs)"

text \<open>\<open>key in data\<close> and \<open>data[key]\<close> for a string key, on each kind of value.\<close>

fun py_in :: "ustring \<Rightarrow> json \<Rightarrow> error + bool" where
  "py_in k (JDict kvs) = Inr (map_of kvs k \<noteq> None)"
| "py_in k (JList xs) = Inr (JStr k \<in> set xs)"
| "py_in k (JStr s) = Inr (contains k s)"
| "py_in k v = Inl TypeError"

fun py_getitem :: "json \<Rightarrow> ustring \<Rightarrow> error + json" where
  "py_getitem (JDict kvs) k = (case map_of kvs k of None \<Rightarrow> Inl KeyError | Some v \<Rightarrow> Inr v)"
| "py_getitem v k = Inl TypeError"

text \<open>The loop over \<open>data['body']\<close>: the \<open>text\<close> item of every element that is a dictionary with one.\<close>

fun body_texts :: "json list \<Rightarrow> json list" where
  "body_texts [] = []"
| "body_texts (JDict kvs # rest) =
     (case map_of kvs (ustr ''text'') of None \<Rightarrow> body_texts rest | Some t \<Rightarrow> t # body_texts rest)"
| "body_texts (v # rest) = body_texts rest"

text \<open>\<open>'\n'.join(texts)\<close> raises on an item that is not a string.\<close>

fun str_items :: "json list \<Rightarrow> error + ustring list" where
  "str_items [] = Inr []"
| "str_items (JStr s # rest) = (case str_items rest of Inl e \<Rightarrow> Inl e | Inr ss \<Rightarrow> Inr (s # ss))"
| "str_items (v # rest) = Inl TypeError"

definition texts_of :: "json \<Rightarrow> error + json list" where
  "texts_of data =
     (case py_in (ustr ''body'') data of Inl e \<Rightarrow> Inl e
      | Inr False \<Rightarrow> Inr []
      | Inr True \<Rightarrow>
         (case py_getitem data (ustr ''body'') of Inl e \<Rightarrow> Inl e
          | Inr (JList body) \<Rightarrow> Inr (body_texts body)
          | Inr v \<Rightarrow> Inr []))"

text \<open>The body of the \<open>try\<close> block of \<open>extract_text_from_json\<close>, every exception a value.\<close>

definition extract_try :: "(ustring \<Rightarrow> json option) \<Rightarrow> (path \<Rightarrow> disk_file option) \<Rightarrow> path \<Rightarrow> error + ustring" where
  "extract_try jl disk json_file =
     (case disk json_file of None \<Rightarrow> Inl FileNotFoundError
      | Some Unreadable \<Rightarrow> Inl PermissionError
      | Some (Undecodable s) \<Rightarrow> Inl UnicodeDecodeError
      | Some (Content s) \<Rightarrow>
         (case jl s of None \<Rightarrow> Inl JSONDecodeError
          | Some data \<Rightarrow>
             (case texts_of data of Inl e \<Rightarrow> Inl e
              | Inr texts \<Rightarrow>
                 if texts \<noteq> [] then
                   (case str_items texts of Inl e \<Rightarrow> Inl e | Inr ss \<Rightarrow> Inr (join [10] ss))
                 else Inr [])))"

text \<open>\<open>except Exception\<close>: a warning is printed and the empty string returned.\<close>

definition extract_text_from_json :: "(ustring \<Rightarrow> json option) \<Rightarrow> (path \<Rightarrow> disk_file option) \<Rightarrow> path \<Rightarrow> ustring" where
  "extract_text_from_json jl disk json_file =
     (case extract_try jl disk json_file of Inl e \<Rightarrow> [] | Inr text \<Rightarrow> text)"

text \<open>\<open>len(text.encode('utf-8'))\<close>; a surrogate code point cannot be encoded.\<close>

definition utf8_char_len :: "nat \<Rightarrow> nat" where
  "utf8_char_len c = (if c < 128 then 1 else if c < 2048 then 2 else if c < 65536 then 3 else 4)"

definition utf8_len :: "ustring \<Rightarrow> error + nat" where
  "utf8_len s = (if list_ex (\<lambda>c. 55296 \<le> c \<and> c \<le> 57343) s then Inl UnicodeEncodeError
                 else Inr (sum_list (map utf8_char_len s)))"

record combine_state =
  disk :: "path \<Rightarrow> disk_file option"
  combined_file :: ustring
  deleted_count :: nat
  total_bytes :: nat

text \<open>
  The \<open>while True\<close> loop over the chunks of a plain-text source. The state it returns is the
  state at the exception when one is raised: the chunks written before it stay written.
\<close>

fun copy_chunks :: "combine_state \<Rightarrow> ustring list \<Rightarrow> combine_state \<times> error option" where
  "copy_chunks st [] = (st, None)"
| "copy_chunks st (chunk # chunks) =
     (case utf8_len chunk of Inl e \<Rightarrow> (st, Some e)
      | Inr n \<Rightarrow> copy_chunks (st\<lparr>total_bytes := total_bytes st + n,
                                 combined_file := combined_file st @ chunk\<rparr>) chunks)"

text \<open>\<open>file_path.unlink()\<close> and the count; unlinking a path that does not exist raises.\<close>

definition unlink_counted :: "combine_state \<Rightarrow> path \<Rightarrow> combine_state" where
  "unlink_counted st file_path =
     (case disk st file_path of None \<Rightarrow> st
      | Some f \<Rightarrow> st\<lparr>disk := (disk st)(file_path := None), deleted_count := deleted_count st + 1\<rparr>)"

text \<open>
  The body of the loop over \<open>files\<close>, with its \<open>try\<close> and \<open>except Exception: continue\<close>:
  where the source raises, the state of that moment is the result.
\<close>

definition combine_file :: "unicode_db \<Rightarrow> (ustring \<Rightarrow> json option) \<Rightarrow> combine_state \<Rightarrow> path \<Rightarrow> combine_state" where
  "combine_file U jl st file_path =
     (if py_lower U (suffix file_path) = ustr ''.json'' then
        (let text = extract_text_from_json jl (disk st) file_path
         in if text \<noteq> [] then
              (case utf8_len text of Inl e \<Rightarrow> st
               | Inr n \<Rightarrow> unlink_counted (st\<lparr>total_bytes := total_bytes st + n,
                                             combined_file := combined_file st @ text @ [10]\<rparr>) file_path)
            else unlink_counted st file_path)
      else
        (case disk st file_path of None \<Rightarrow> st
         | Some Unreadable \<Rightarrow> st
         | Some (Undecodable s) \<Rightarrow> fst (copy_chunks st (read_chunks chunk_size s))
         | Some (Content s) \<Rightarrow>
            (case copy_chunks st (read_chunks chunk_size s) of
               (st1, Some e) \<Rightarrow> st1
             | (st1, None) \<Rightarrow>
                 unlink_counted (st1\<lparr>combined_file := combined_file st1 @ [10]\<rparr>) file_path)))"

text \<open>
  The result holds the disk after the run, the text written to the output file, and the
  pair \<open>(deleted_count, total_bytes)\<close> returned.
\<close>

definition combine_files_streaming :: "unicode_db \<Rightarrow> (ustring \<Rightarrow> json option) \<Rightarrow> path list \<Rightarrow> (path \<Rightarrow> disk_file option) \<Rightarrow> combine_state" where
  "combine_files_streaming U jl files d =
     foldl (combine_file U jl) \<lparr>disk = d, combined_file = [], deleted_count = 0, total_bytes = 0\<rparr> files"

section \<open>Notions used in the statements\<close>

text \<open>
  The code points the sanitized file may hold: ASCII letters, the space, the line feed
  and \<open>. , ! ?\<close>. An excluded one is a digit or a whitespace code point other than the
  space and the line feed (the tab 9 and the carriage return 13 among them).
\<close>

definition output_char :: "nat \<Rightarrow> bool" where
  "output_char c \<longleftrightarrow> (97 \<le> c \<and> c \<le> 122) \<or> (65 \<le> c \<and> c \<le> 90) \<or> c = 32 \<or> c = 10
     \<or> c = 46 \<or> c = 44 \<or> c = 33 \<or> c = 63"

definition excluded_char :: "nat \<Rightarrow> bool" where
  "excluded_char c \<longleftrightarrow> (48 \<le> c \<and> c \<le> 57) \<or> (isspace c \<and> c \<noteq> 32 \<and> c \<noteq> 10)"

text \<open>Two neighbours of a token list are equal in lower case.\<close>

fun adjacent_equal :: "unicode_db \<Rightarrow> ustring list \<Rightarrow> bool" where
  "adjacent_equal U (a # b # ts) = (py_lower U a = py_lower U b \<or> adjacent_equal U (b # ts))"
| "adjacent_equal U ts = False"

section \<open>The inputs of the scenarios\<close>

text \<open>
  Scenario C: \<open>a.txt\<close> holds \<open>hello world\<close> and a line feed, \<open>b.json\<close> holds the text
  \<open>b_json_text\<close>, whose value as JSON is \<open>b_json_data\<close>. \<open>scenario_load\<close> is a parser that
  knows this one text.
\<close>

definition a_txt :: path where
  "a_txt = \<lparr>name = ustr ''a.txt'', suffix = ustr ''.txt''\<rparr>"

definition b_json :: path where
  "b_json = \<lparr>name = ustr ''b.json'', suffix = ustr ''.json''\<rparr>"

definition b_json_text :: ustring where
  "b_json_text = ustr ''{\"body\":[{\"text\":\"foo bar\",\"pos\":\"NN\"}]}''"

definition b_json_data :: json where
  "b_json_data = JDict [(ustr ''body'',
     JList [JDict [(ustr ''text'', JStr (ustr ''foo bar'')), (ustr ''pos'', JStr (ustr ''NN''))]])]"

definition scenario_load :: "ustring \<Rightarrow> json option" where
  "scenario_load s = (if s = b_json_text then Some b_json_data else None)"

definition scenario_disk :: "path \<Rightarrow> disk_file option" where
  "scenario_disk = [a_txt \<mapsto> Content (ustr ''hello world\<newline>''), b_json \<mapsto> Content b_json_text]"

text \<open>A parser for which no text is well-formed, and a disk with two damaged sources.\<close>

definition reject_all :: "ustring \<Rightarrow> json option" where
  "reject_all s = None"

definition damaged_disk :: "path \<Rightarrow> disk_file option" where
  "damaged_disk = [a_txt \<mapsto> Undecodable [], b_json \<mapsto> Content (ustr ''{'')]"

text \<open>A line of two words or more; a line the spam rule drops.\<close>

definition multi_word :: "ustring \<Rightarrow> bool" where
  "multi_word l \<longleftrightarrow> 2 \<le> length (split_ws l)"

definition spam_line :: "unicode_db \<Rightarrow> ustring \<Rightarrow> bool" where
  "spam_line U l \<longleftrightarrow> 5 \<le> length (split_ws l) \<and> mostly_one_word U (split_ws l)"

text \<open>
  The spam rule in the words of the specification: the number of occurrences, compared
  in lower case, of the most frequent word of the line.
\<close>

definition most_frequent_count :: "unicode_db \<Rightarrow> ustring list \<Rightarrow> nat" where
  "most_frequent_count U ws =
     Max (set (map (\<lambda>w. count_list (map (py_lower U) ws) (py_lower U w)) ws))"

text \<open>\<open>word_counts.get(k, 0)\<close>.\<close>

definition counted :: "(ustring \<times> nat) list \<Rightarrow> ustring \<Rightarrow> nat" where
  "counted wc k = (case map_of wc k of None \<Rightarrow> 0 | Some n \<Rightarrow> n)"

text \<open>
  What holds of the filter's state after every line: the file written so far is empty or
  ends in a line feed, the set is the set of its non-empty lines, and none of them
  occurs twice; every line of the set has two words or more and is not spam.
\<close>

definition filter_inv :: "unicode_db \<Rightarrow> filter_state \<Rightarrow> bool" where
  "filter_inv U st \<longleftrightarrow>
     (final_file st = [] \<or> last (final_file st) = 10)
     \<and> seen_lines st = {l \<in> set (lines_of (final_file st)). l \<noteq> []}
     \<and> distinct (filter (\<lambda>l. l \<noteq> []) (lines_of (final_file st)))"

definition seen_ok :: "unicode_db \<Rightarrow> filter_state \<Rightarrow> bool" where
  "seen_ok U st \<longleftrightarrow> (\<forall>l\<in>seen_lines st. multi_word l \<and> \<not> spam_line U l)"

section \<open>Auxiliary facts on strings\<close>

lemmas str_eval = ustr_def gutenberg_def allowed_char_def isspace_def dedup_line_def
  py_lower_def ascii_lower_def isword_def

lemma read_chunks_Nil: "read_chunks n [] = []"
  by (simp add: read_chunks.simps)

lemma read_chunks_one: "s \<noteq> [] \<Longrightarrow> length s \<le> n \<Longrightarrow> read_chunks n s = [s]"
  by (subst read_chunks.simps) (cases n; auto simp: read_chunks_Nil)

lemma read_chunks_two:
  "length xs = n \<Longrightarrow> 0 < n \<Longrightarrow> ys \<noteq> [] \<Longrightarrow> length ys \<le> n \<Longrightarrow> read_chunks n (xs @ ys) = [xs, ys]"
  by (subst read_chunks.simps) (auto simp: read_chunks_one)

lemma set_remove_metadata: "set (remove_metadata U p s) \<subseteq> set s"
proof (induction U p s rule: remove_metadata.induct)
  case (1 U prevw)
  then show ?case by simp
next
  case (2 U prevw c cs)
  show ?case
  proof (cases "\<not> prevw \<and> take 9 (c # cs) = gutenberg
          \<and> (case drop 9 (c # cs) of [] \<Rightarrow> True | d # ds \<Rightarrow> \<not> isword U d)")
    case True
    with 2 have "set (remove_metadata U True (drop 9 (c # cs))) \<subseteq> set (drop 9 (c # cs))"
      by simp
    also have "\<dots> \<subseteq> set (c # cs)" by (rule set_drop_subset)
    finally show ?thesis using True by simp
  next
    case False
    with 2 have "set (remove_metadata U (isword U c) cs) \<subseteq> set cs" by simp
    then show ?thesis using False by auto
  qed
qed

lemma split_ws_token:
  "t \<in> set (split_ws s) \<Longrightarrow> t \<noteq> [] \<and> set t \<subseteq> set s \<and> (\<forall>c\<in>set t. \<not> isspace c)"
proof (induction s rule: split_ws.induct)
  case 1
  then show ?case by simp
next
  case (2 c cs)
  show ?case
  proof (cases "isspace c")
    case True
    with 2 show ?thesis by auto
  next
    case False
    from 2(3) False have "t = takeWhile (\<lambda>x. \<not> isspace x) (c # cs)
        \<or> t \<in> set (split_ws (dropWhile (\<lambda>x. \<not> isspace x) cs))" by simp
    then show ?thesis
    proof
      assume t: "t = takeWhile (\<lambda>x. \<not> isspace x) (c # cs)"
      have "set t \<subseteq> set (c # cs)"
        unfolding t by (rule set_takeWhileD[THEN conjunct1, THEN subsetI])
      moreover have "\<forall>x\<in>set t. \<not> isspace x" unfolding t by (auto dest: set_takeWhileD)
      moreover have "t \<noteq> []" using False t by simp
      ultimately show ?thesis by blast
    next
      assume "t \<in> set (split_ws (dropWhile (\<lambda>x. \<not> isspace x) cs))"
      with 2(2) False
      have "t \<noteq> [] \<and> set t \<subseteq> set (dropWhile (\<lambda>x. \<not> isspace x) cs) \<and> (\<forall>c\<in>set t. \<not> isspace c)"
        by simp
      moreover have "set (dropWhile (\<lambda>x. \<not> isspace x) cs) \<subseteq> set cs"
        by (rule set_dropWhileD[THEN subsetI])
      ultimately show ?thesis by auto
    qed
  qed
qed

lemma split_nl_nonempty: "split_nl s \<noteq> []"
  by (induction s) (auto split: list.splits)

lemma split_nl_line: "l \<in> set (split_nl s) \<Longrightarrow> set l \<subseteq> set s \<and> 10 \<notin> set l"
proof (induction s arbitrary: l)
  case Nil
  then show ?case by simp
next
  case (Cons c cs)
  then show ?case by (fastforce split: if_splits list.splits)
qed

lemma set_dedup_tokens: "set (dedup_tokens U p ts) \<subseteq> set ts"
  by (induction ts arbitrary: p) auto

lemma set_join: "set (join sep xs) \<subseteq> set sep \<union> \<Union> (set ` set xs)"
  by (induction sep xs rule: join.induct) auto

lemma set_collapse_spaces: "set (collapse_spaces s) \<subseteq> set s"
proof (induction s rule: collapse_spaces.induct)
  case 1
  then show ?case by simp
next
  case (2 c cs)
  have "set (dropWhile (\<lambda>x. x = 32) cs) \<subseteq> set cs" by (rule set_dropWhileD[THEN subsetI])
  with 2 show ?case by (cases "c = 32") auto
qed

section \<open>The sanitizer's output alphabet\<close>

lemma allowed_output: "allowed_char c \<Longrightarrow> \<not> isspace c \<Longrightarrow> output_char c"
  by (auto simp: allowed_char_def output_char_def)

lemma dedup_line_chars:
  assumes "\<forall>c\<in>set line. allowed_char c" "c \<in> set (dedup_line U line)"
  shows "output_char c \<and> c \<noteq> 10"
proof -
  from assms(2) have "c \<in> set (join [32] (dedup_tokens U None (split_ws line)))"
    by (auto simp: dedup_line_def Let_def split: if_splits)
  with set_join have "c = 32 \<or> (\<exists>t\<in>set (dedup_tokens U None (split_ws line)). c \<in> set t)"
    by fastforce
  then show ?thesis
  proof
    assume "c = 32" then show ?thesis by (simp add: output_char_def)
  next
    assume "\<exists>t\<in>set (dedup_tokens U None (split_ws line)). c \<in> set t"
    then obtain t where t: "t \<in> set (split_ws line)" "c \<in> set t"
      using set_dedup_tokens by blast
    from split_ws_token[OF t(1)] t(2) have "c \<in> set line" "\<not> isspace c" by auto
    with assms(1) have "output_char c" by (auto intro: allowed_output)
    moreover have "c \<noteq> 10" using \<open>\<not> isspace c\<close> by (auto simp: isspace_def)
    ultimately show ?thesis by simp
  qed
qed

lemma clean_chunk_chars: "c \<in> set (clean_chunk U chunk) \<Longrightarrow> output_char c"
proof -
  assume "c \<in> set (clean_chunk U chunk)"
  then have "c \<in> set (join [10] (map (dedup_line U)
      (split_nl (filter allowed_char (remove_metadata U False chunk)))))"
    using set_collapse_spaces by (auto simp: clean_chunk_def Let_def)
  with set_join
  have "c = 10 \<or> (\<exists>l\<in>set (split_nl (filter allowed_char (remove_metadata U False chunk))).
      c \<in> set (dedup_line U l))" by fastforce
  then show ?thesis
  proof
    assume "c = 10" then show ?thesis by (simp add: output_char_def)
  next
    assume "\<exists>l\<in>set (split_nl (filter allowed_char (remove_metadata U False chunk))).
      c \<in> set (dedup_line U l)"
    then obtain l where
      l: "l \<in> set (split_nl (filter allowed_char (remove_metadata U False chunk)))"
      "c \<in> set (dedup_line U l)" by blast
    from split_nl_line[OF l(1)] have "\<forall>c\<in>set l. allowed_char c" by auto
    with l(2) show ?thesis using dedup_line_chars by blast
  qed
qed

lemma cleaned_file_foldl:
  "cleaned_file (foldl (clean_step U) r cs) = cleaned_file r @ concat (map (clean_chunk U) cs)"
  by (induction cs arbitrary: r) (auto simp: clean_step_def Let_def)

lemma cleaned_file_chars:
  "c \<in> set (cleaned_file (clean_text_streaming U text)) \<Longrightarrow> output_char c"
  by (auto simp: clean_text_streaming_def cleaned_file_foldl dest: clean_chunk_chars)

lemma clean_one_chunk:
  "s \<noteq> [] \<Longrightarrow> length s \<le> chunk_size \<Longrightarrow>
     cleaned_file (clean_text_streaming U s) = clean_chunk U s"
  by (simp add: clean_text_streaming_def read_chunks_one clean_step_def Let_def)

lemma clean_two_chunks:
  "length xs = chunk_size \<Longrightarrow> ys \<noteq> [] \<Longrightarrow> length ys \<le> chunk_size \<Longrightarrow>
     cleaned_file (clean_text_streaming U (xs @ ys)) = clean_chunk U xs @ clean_chunk U ys"
  by (simp add: clean_text_streaming_def read_chunks_two clean_step_def chunk_size_def Let_def)

text \<open>
  C4. Whatever the input and the Unicode tables, every code point of the sanitized file
  is an ASCII letter, a space, a line feed or one of \<open>. , ! ?\<close>; no digit and no
  whitespace code point other than the space and the line feed (so no tab and no
  carriage return) is in it.
\<close>

theorem sanitized_alphabet:
  "list_all output_char (cleaned_file (clean_text_streaming U text))
   \<and> \<not> list_ex excluded_char (cleaned_file (clean_text_streaming U text))"
proof -
  have a: "list_all output_char (cleaned_file (clean_text_streaming U text))"
    by (simp add: list_all_iff cleaned_file_chars)
  have "output_char c \<Longrightarrow> \<not> excluded_char c" for c
    by (auto simp: output_char_def excluded_char_def isspace_def)
  with a show ?thesis by (auto simp: list_all_iff list_ex_iff)
qed


section \<open>The scenarios of the Combiner and of the Sanitizer\<close>

lemmas comb_eval = combine_files_streaming_def combine_file_def extract_text_from_json_def
  extract_try_def texts_of_def unlink_counted_def utf8_len_def utf8_char_len_def
  py_lower_def ascii_lower_def read_chunks_one chunk_size_def ustr_def Let_def

lemmas scenario_eval = a_txt_def b_json_def scenario_disk_def b_json_data_def

lemma scenario_C_run:
  "jl b_json_text = Some b_json_data \<Longrightarrow>
   combine_files_streaming U jl [a_txt, b_json] scenario_disk =
     \<lparr>disk = Map.empty, combined_file = ustr ''hello world\<newline>\<newline>foo bar\<newline>'',
      deleted_count = 2, total_bytes = 19\<rparr>"
  by (simp add: comb_eval scenario_eval fun_eq_iff)

text \<open>
  C2, as amended. With \<open>a.txt\<close> and \<open>b.json\<close> of Scenario C, in this order, and a parser
  that reads the text of \<open>b.json\<close> as its JSON value, the Combiner writes
  \<open>hello world\<close>, two line feeds, \<open>foo bar\<close> and a line feed: the line feed it appends
  to every source follows the one \<open>a.txt\<close> ends in. Both sources are deleted and
  counted, 19 bytes are counted, and neither \<open>NN\<close> nor \<open>pos\<close> occurs in the stream.
\<close>

theorem scenario_C_combined:
  assumes "jl b_json_text = Some b_json_data"
  shows "combine_files_streaming U jl [a_txt, b_json] scenario_disk =
           \<lparr>disk = Map.empty, combined_file = ustr ''hello world\<newline>\<newline>foo bar\<newline>'',
            deleted_count = 2, total_bytes = 19\<rparr>
         \<and> \<not> contains (ustr ''NN'')
               (combined_file (combine_files_streaming U jl [a_txt, b_json] scenario_disk))
         \<and> \<not> contains (ustr ''pos'')
               (combined_file (combine_files_streaming U jl [a_txt, b_json] scenario_disk))"
proof -
  have "\<not> contains (ustr ''NN'') (ustr ''hello world\<newline>\<newline>foo bar\<newline>'')"
    by (simp add: ustr_def)
  moreover have "\<not> contains (ustr ''pos'') (ustr ''hello world\<newline>\<newline>foo bar\<newline>'')"
    by (simp add: ustr_def)
  ultimately show ?thesis
    using scenario_C_run [of jl U] assms by simp
qed

theorem scenario_C_combined_witness:
  "scenario_load b_json_text = Some b_json_data
   \<and> combine_files_streaming ascii_db scenario_load [a_txt, b_json] scenario_disk =
       \<lparr>disk = Map.empty, combined_file = ustr ''hello world\<newline>\<newline>foo bar\<newline>'',
        deleted_count = 2, total_bytes = 19\<rparr>"
proof -
  have h: "scenario_load b_json_text = Some b_json_data"
    by (simp add: scenario_load_def)
  from scenario_C_combined [of scenario_load ascii_db] h show ?thesis by simp
qed

text \<open>
  C2, as stated: the stream of Scenario C is not \<open>hello world\<close>, one line feed, \<open>foo bar\<close>
  and a line feed.
\<close>

theorem scenario_C_stream_counterexample:
  "combined_file (combine_files_streaming ascii_db scenario_load [a_txt, b_json] scenario_disk)
     \<noteq> ustr ''hello world\<newline>foo bar\<newline>''"
proof -
  have "scenario_load b_json_text = Some b_json_data"
    by (simp add: scenario_load_def)
  then have "combined_file (combine_files_streaming ascii_db scenario_load [a_txt, b_json] scenario_disk)
      = ustr ''hello world\<newline>\<newline>foo bar\<newline>''"
    by (simp add: scenario_C_run)
  then show ?thesis by (simp add: ustr_def)
qed

text \<open>
  The two paths of the Combiner on a source that fails. A plain-text source that cannot
  be opened, or fails to decode at its first read, leaves the state as it is. A JSON
  source whose text the parser rejects is unlinked and counted, and nothing is written.
\<close>

lemma plain_text_error_skipped:
  assumes "py_lower U (suffix p) \<noteq> ustr ''.json''"
    "disk st p = Some Unreadable \<or> disk st p = Some (Undecodable [])"
  shows "combine_file U jl st p = st"
  using assms
  by (auto simp: combine_file_def read_chunks_Nil)

lemma json_error_deleted:
  assumes "py_lower U (suffix p) = ustr ''.json''" "disk st p = Some (Content s)" "jl s = None"
  shows "combine_file U jl st p =
           st\<lparr>disk := (disk st)(p := None), deleted_count := deleted_count st + 1\<rparr>"
  using assms
  by (simp add: combine_file_def extract_text_from_json_def extract_try_def unlink_counted_def)

text \<open>
  C1, on the code. \<open>a.txt\<close> fails to decode at its first read and \<open>b.json\<close> holds a text
  the parser rejects. The plain-text source is skipped: it stays on disk and is not
  counted. The JSON source is deleted and counted although nothing of it was appended:
  \<open>extract_text_from_json\<close> turns the parse error into the empty string, so the
  \<open>except\<close> branch of the Combiner is never reached and \<open>unlink\<close> runs.
\<close>

theorem malformed_json_is_deleted:
  "combine_files_streaming U reject_all [a_txt, b_json] damaged_disk =
     \<lparr>disk = [a_txt \<mapsto> Undecodable []], combined_file = [], deleted_count = 1, total_bytes = 0\<rparr>"
  by (simp add: comb_eval a_txt_def b_json_def damaged_disk_def reject_all_def
      read_chunks.simps fun_eq_iff)

lemma scenario_D_chunk:
  "clean_chunk U (ustr ''The Year 2024 was great!!'') = ustr ''The Year was great!!''"
  by (simp add: clean_chunk_def str_eval)

lemma scenario_D_small:
  "ustr ''The Year 2024 was great!!'' \<noteq> [] \<and> length (ustr ''The Year 2024 was great!!'') \<le> chunk_size"
  by (simp add: ustr_def chunk_size_def)

text \<open>
  C5, as amended. Sanitizing \<open>The Year 2024 was great!!\<close> gives \<open>The Year was great!!\<close>: the
  digits are deleted, the double space they leave is one space, and both exclamation
  marks stay, since only repeated words are collapsed.
\<close>

theorem scenario_D_sanitized:
  "cleaned_file (clean_text_streaming U (ustr ''The Year 2024 was great!!''))
     = ustr ''The Year was great!!''"
  using scenario_D_small by (simp add: clean_one_chunk scenario_D_chunk)

text \<open>C5, as stated: the result is not \<open>The Year was great!\<close> with one exclamation mark.\<close>

theorem scenario_D_one_mark_counterexample:
  "cleaned_file (clean_text_streaming ascii_db (ustr ''The Year 2024 was great!!''))
     \<noteq> ustr ''The Year was great!''"
proof -
  have "cleaned_file (clean_text_streaming ascii_db (ustr ''The Year 2024 was great!!''))
     = ustr ''The Year was great!!''"
    using scenario_D_small by (simp add: clean_one_chunk scenario_D_chunk)
  then show ?thesis by (simp add: ustr_def)
qed

section \<open>Lines of a file and the invariant of the Line Filter\<close>

lemma file_lines_inner: "l \<in> set (file_lines t) \<Longrightarrow> l \<noteq> [] \<and> 10 \<notin> set (butlast l)"
proof (induction t arbitrary: l)
  case Nil
  then show ?case by simp
next
  case (Cons c cs)
  show ?case
  proof (cases "c = 10")
    case True
    with Cons show ?thesis by auto
  next
    case False
    show ?thesis
    proof (cases "file_lines cs")
      case Nil
      with Cons False show ?thesis by auto
    next
      case (Cons m ms)
      with Cons.prems False have "l = c # m \<or> l \<in> set ms" by auto
      moreover have "m \<noteq> [] \<and> 10 \<notin> set (butlast m)" using Cons.IH[of m] Cons by simp
      moreover have "l \<in> set ms \<Longrightarrow> l \<noteq> [] \<and> 10 \<notin> set (butlast l)" using Cons.IH[of l] Cons by simp
      ultimately show ?thesis using False by auto
    qed
  qed
qed

lemma strip_snoc_space: "isspace x \<Longrightarrow> strip (s @ [x]) = strip s"
proof -
  assume x: "isspace x"
  show ?thesis
  proof (cases "\<forall>y\<in>set s. isspace y")
    case True
    from True have d1: "dropWhile isspace s = []" by simp
    from True x have d2: "dropWhile isspace (s @ [x]) = []" by simp
    show ?thesis unfolding strip_def d1 d2 by simp
  next
    case False
    then have "dropWhile isspace (s @ [x]) = dropWhile isspace s @ [x]"
      by (auto simp: dropWhile_append1)
    then show ?thesis using x by (simp add: strip_def)
  qed
qed

lemma set_strip: "set (strip s) \<subseteq> set s"
proof -
  have "set (strip s) = set (dropWhile isspace (rev (dropWhile isspace s)))" by (simp add: strip_def)
  also have "\<dots> \<subseteq> set (rev (dropWhile isspace s))" by (rule set_dropWhileD[THEN subsetI])
  also have "\<dots> \<subseteq> set s" using set_dropWhileD[of _ isspace s] by auto
  finally show ?thesis .
qed

lemma strip_no_nl: "10 \<notin> set (butlast l) \<Longrightarrow> 10 \<notin> set (strip l)"
proof (cases l rule: rev_cases)
  case Nil
  then show ?thesis by (simp add: strip_def)
next
  case (snoc s x)
  assume a: "10 \<notin> set (butlast l)"
  show ?thesis
  proof (cases "isspace x")
    case True
    then have "strip l = strip s" using snoc by (simp add: strip_snoc_space)
    then show ?thesis using a snoc set_strip[of s] by auto
  next
    case False
    then have "x \<noteq> 10" by (auto simp: isspace_def)
    then show ?thesis using a snoc set_strip[of l] by auto
  qed
qed

lemma file_lines_single: "10 \<notin> set l \<Longrightarrow> file_lines (l @ [10]) = [l @ [10]]"
  by (induction l) auto

lemma file_lines_append:
  "c = [] \<or> last c = 10 \<Longrightarrow> file_lines (c @ d) = file_lines c @ file_lines d"
proof (induction c)
  case Nil
  then show ?case by simp
next
  case (Cons x c)
  show ?case
  proof (cases "c = []")
    case True
    with Cons.prems show ?thesis by simp
  next
    case False
    with Cons.prems have l: "last c = 10" by simp
    with Cons.IH have ih: "file_lines (c @ d) = file_lines c @ file_lines d" by simp
    from False have "file_lines c \<noteq> []" by (cases c) (auto split: list.splits)
    then show ?thesis using ih by (auto split: list.splits)
  qed
qed

lemma lines_of_snoc:
  "c = [] \<or> last c = 10 \<Longrightarrow> 10 \<notin> set l \<Longrightarrow> lines_of (c @ l @ [10]) = lines_of c @ [l]"
  by (simp add: lines_of_def file_lines_append file_lines_single chomp_def)

lemma process_line_inv:
  assumes inv: "filter_inv U st" and nl: "10 \<notin> set (strip raw)"
  shows "filter_inv U (process_line U st raw)"
proof -
  let ?out = "final_file st"
  from inv have e: "?out = [] \<or> last ?out = 10" by (simp add: filter_inv_def)
  have blank: "lines_of (?out @ [10]) = lines_of ?out @ [[]]"
    using lines_of_snoc[OF e, of "[]"] by simp
  have keep: "lines_of (?out @ strip raw @ [10]) = lines_of ?out @ [strip raw]"
    using lines_of_snoc[OF e nl] .
  show ?thesis
    using inv blank keep
    by (auto simp: process_line_def Let_def filter_inv_def)
qed

lemma process_line_seen_ok:
  "seen_ok U st \<Longrightarrow> seen_ok U (process_line U st raw)"
  by (auto simp: process_line_def Let_def seen_ok_def multi_word_def spam_line_def)

lemma foldl_inv:
  "filter_inv U st \<Longrightarrow> \<forall>raw\<in>set raws. 10 \<notin> set (strip raw) \<Longrightarrow>
     filter_inv U (foldl (process_line U) st raws)"
  by (induction raws arbitrary: st) (auto simp: process_line_inv)

lemma foldl_seen_ok:
  "seen_ok U st \<Longrightarrow> seen_ok U (foldl (process_line U) st raws)"
  by (induction raws arbitrary: st) (auto simp: process_line_seen_ok)

lemma run_inv: "filter_inv U (process_lines_streaming U text)"
  unfolding process_lines_streaming_def
proof (rule foldl_inv)
  show "filter_inv U filter_init"
    by (simp add: filter_inv_def filter_init_def lines_of_def)
  show "\<forall>raw\<in>set (file_lines text). 10 \<notin> set (strip raw)"
    using file_lines_inner strip_no_nl by blast
qed

lemma run_seen_ok: "seen_ok U (process_lines_streaming U text)"
  unfolding process_lines_streaming_def
  by (rule foldl_seen_ok) (simp add: seen_ok_def filter_init_def)

section \<open>The word counts of a line\<close>

lemma count_word_step:
  "distinct (map fst wc) \<Longrightarrow>
     distinct (map fst (count_word U wc w))
     \<and> fst ` set (count_word U wc w) = insert (py_lower U w) (fst ` set wc)
     \<and> counted (count_word U wc w) k = counted wc k + (if py_lower U w = k then 1 else 0)"
  by (auto simp: count_word_def Let_def counted_def AList.distinct_update AList.dom_update
      AList.update_conv' split: option.splits)

lemma word_counts_fold:
  "distinct (map fst wc) \<Longrightarrow>
     distinct (map fst (foldl (count_word U) wc ws))
     \<and> fst ` set (foldl (count_word U) wc ws) = fst ` set wc \<union> set (map (py_lower U) ws)
     \<and> counted (foldl (count_word U) wc ws) k = counted wc k + count_list (map (py_lower U) ws) k"
proof (induction ws arbitrary: wc)
  case Nil
  then show ?case by simp
next
  case (Cons w ws)
  from count_word_step[OF Cons.prems, of U w k]
  have d: "distinct (map fst (count_word U wc w))"
    and f: "fst ` set (count_word U wc w) = insert (py_lower U w) (fst ` set wc)"
    and c: "counted (count_word U wc w) k = counted wc k + (if py_lower U w = k then 1 else 0)"
    by simp_all
  from Cons.IH[OF d] f c show ?case by auto
qed

lemma word_counts_values:
  "snd ` set (word_counts U ws) = count_list (map (py_lower U) ws) ` set (map (py_lower U) ws)"
proof -
  let ?wc = "word_counts U ws" and ?L = "map (py_lower U) ws"
  have d: "distinct (map fst ?wc)" and f: "fst ` set ?wc = set ?L"
    using word_counts_fold[of "[]" U ws] by (simp_all add: word_counts_def)
  have c: "counted ?wc k = count_list ?L k" for k
    using word_counts_fold[of "[]" U ws k] by (simp add: word_counts_def counted_def)
  have v: "(k, v) \<in> set ?wc \<Longrightarrow> v = count_list ?L k" for k v
    using d c[of k] by (simp add: counted_def)
  show ?thesis
  proof (intro equalityI subsetI)
    fix v assume "v \<in> snd ` set ?wc"
    then obtain k where kv: "(k, v) \<in> set ?wc" by auto
    then have "k \<in> set ?L" using f by force
    with v[OF kv] show "v \<in> count_list ?L ` set ?L" by blast
  next
    fix v assume "v \<in> count_list ?L ` set ?L"
    then obtain k where k: "k \<in> set ?L" "v = count_list ?L k" by auto
    with f obtain v' where kv: "(k, v') \<in> set ?wc" by force
    with v[OF kv] k show "v \<in> snd ` set ?wc" by force
  qed
qed

lemma max_count_refines: "max_count U ws = most_frequent_count U ws"
proof -
  have "set (map (\<lambda>w. count_list (map (py_lower U) ws) (py_lower U w)) ws)
      = count_list (map (py_lower U) ws) ` set (map (py_lower U) ws)" by auto
  then show ?thesis
    by (simp add: max_count_def most_frequent_count_def word_counts_values)
qed

lemmas filter_eval = process_lines_streaming_def process_line_def strip_def filter_init_def Let_def
  word_counts_def count_word_def max_count_def mostly_one_word_def quotient_exceeds_0_8_def
  isspace_def ustr_def
  py_lower_def ascii_lower_def lines_of_def chomp_def

section \<open>The rules of the Line Filter\<close>

lemma quotient_exceeds_0_8_iff:
  "n < 2000000000000000 \<Longrightarrow> quotient_exceeds_0_8 m n \<longleftrightarrow> 4 * n < 5 * m"
  unfolding quotient_exceeds_0_8_def by arith

text \<open>
  C8. A line of five words or more (and of fewer than \<open>2 * 10^15\<close>, up to where the
  comparison of doubles is the comparison with four fifths) whose most frequent word,
  compared in lower case, makes up more than four fifths of the words is dropped by the
  loop body: nothing is written, nothing is added to the set, and \<open>removed_repeats\<close>
  grows by one. A line of fewer than five words never changes \<open>removed_repeats\<close>. The
  six words \<open>spam spam spam spam spam word\<close> are dropped in this way.
\<close>

theorem spam_dropped:
  "(5 \<le> length (split_ws (strip raw)) \<and> length (split_ws (strip raw)) < 2000000000000000
      \<and> 4 * length (split_ws (strip raw)) < 5 * most_frequent_count U (split_ws (strip raw))
    \<longrightarrow> process_line U st raw =
          st\<lparr>total_lines := total_lines st + 1, consecutive_empty := 0,
             removed_repeats := removed_repeats st + 1\<rparr>)
   \<and> (length (split_ws (strip raw)) < 5
    \<longrightarrow> removed_repeats (process_line U st raw) = removed_repeats st)
   \<and> process_line U st (ustr ''spam spam spam spam spam word'') =
          st\<lparr>total_lines := total_lines st + 1, consecutive_empty := 0,
             removed_repeats := removed_repeats st + 1\<rparr>"
proof (intro conjI impI)
  assume a: "5 \<le> length (split_ws (strip raw)) \<and> length (split_ws (strip raw)) < 2000000000000000
      \<and> 4 * length (split_ws (strip raw)) < 5 * most_frequent_count U (split_ws (strip raw))"
  then have "strip raw \<noteq> []" by auto
  with a show "process_line U st raw =
          st\<lparr>total_lines := total_lines st + 1, consecutive_empty := 0,
             removed_repeats := removed_repeats st + 1\<rparr>"
    by (simp add: process_line_def Let_def mostly_one_word_def max_count_refines
        quotient_exceeds_0_8_iff)
next
  assume "length (split_ws (strip raw)) < 5"
  then show "removed_repeats (process_line U st raw) = removed_repeats st"
    by (simp add: process_line_def Let_def)
next
  show "process_line U st (ustr ''spam spam spam spam spam word'') =
          st\<lparr>total_lines := total_lines st + 1, consecutive_empty := 0,
             removed_repeats := removed_repeats st + 1\<rparr>"
    by (simp add: filter_eval)
qed

text \<open>C8 at \<open>no No NO no no\<close>, five words that are one word in lower case, and at \<open>a b c d\<close>.\<close>

theorem spam_dropped_witness:
  "5 \<le> length (split_ws (strip (ustr ''no No NO no no'')))
   \<and> length (split_ws (strip (ustr ''no No NO no no''))) < 2000000000000000
   \<and> 4 * length (split_ws (strip (ustr ''no No NO no no'')))
       < 5 * most_frequent_count ascii_db (split_ws (strip (ustr ''no No NO no no'')))
   \<and> process_line ascii_db filter_init (ustr ''no No NO no no'') =
       filter_init\<lparr>total_lines := 1, consecutive_empty := 0, removed_repeats := 1\<rparr>
   \<and> length (split_ws (strip (ustr ''a b c d''))) < 5
   \<and> removed_repeats (process_line ascii_db filter_init (ustr ''a b c d'')) = 0"
proof -
  have 1: "split_ws (strip (ustr ''no No NO no no''))
      = [ustr ''no'', ustr ''No'', ustr ''NO'', ustr ''no'', ustr ''no'']"
    by (simp add: strip_def ustr_def isspace_def)
  have 2: "most_frequent_count ascii_db [ustr ''no'', ustr ''No'', ustr ''NO'', ustr ''no'', ustr ''no''] = 5"
    by (simp add: most_frequent_count_def py_lower_def ascii_lower_def ustr_def)
  have 3: "length (split_ws (strip (ustr ''a b c d''))) < 5"
    by (simp add: strip_def ustr_def isspace_def)
  from spam_dropped[of "ustr ''no No NO no no''" ascii_db filter_init] 1 2
  have 4: "process_line ascii_db filter_init (ustr ''no No NO no no'') =
       filter_init\<lparr>total_lines := 1, consecutive_empty := 0, removed_repeats := 1\<rparr>"
    by (simp add: filter_init_def)
  from spam_dropped[of "ustr ''a b c d''" ascii_db filter_init] 3
  have 5: "removed_repeats (process_line ascii_db filter_init (ustr ''a b c d'')) = 0"
    by (simp add: filter_init_def)
  from 1 2 3 4 5 show ?thesis by simp
qed

lemma run_lines:
  "l \<in> set (lines_of (final_file (process_lines_streaming U text))) \<Longrightarrow> l = [] \<or> multi_word l"
  using run_inv[of U "text"] run_seen_ok[of U "text"]
  by (auto simp: filter_inv_def seen_ok_def)

text \<open>
  C3, as amended. Every line of the final file is empty or has at least two words: the
  filter writes empty lines (at most two for a run of empty input lines), and no line
  of exactly one word is ever in the file.
\<close>

theorem output_lines_word_count:
  "list_all (\<lambda>l. l = [] \<or> 2 \<le> length (split_ws l))
      (lines_of (final_file (process_lines_streaming U text)))
   \<and> \<not> list_ex (\<lambda>l. length (split_ws l) = 1)
      (lines_of (final_file (process_lines_streaming U text)))"
proof -
  have "l \<in> set (lines_of (final_file (process_lines_streaming U text)))
      \<Longrightarrow> l = [] \<or> 2 \<le> length (split_ws l)" for l
    using run_lines[of l U "text"] by (simp add: multi_word_def)
  then show ?thesis by (fastforce simp: list_all_iff list_ex_iff)
qed

text \<open>
  C3, as stated: for the input of one line feed the final file has a line, the empty
  one, of fewer than two words.
\<close>

theorem blank_line_counterexample:
  "\<not> list_all multi_word (lines_of (final_file (process_lines_streaming ascii_db [10])))"
  by (simp add: filter_eval multi_word_def)

text \<open>
  C6, on the code. The input has two empty lines, the one-word line \<open>x\<close> and two more
  empty lines. The one-word line is dropped, but it has reset \<open>consecutive_empty\<close>
  before, so all four empty lines are written: the final file is a run of four empty
  lines.
\<close>

theorem blank_run_after_dropped_line:
  "final_file (process_lines_streaming U (ustr ''\<newline>\<newline>x\<newline>\<newline>\<newline>'')) = ustr ''\<newline>\<newline>\<newline>\<newline>''
   \<and> lines_of (final_file (process_lines_streaming U (ustr ''\<newline>\<newline>x\<newline>\<newline>\<newline>''))) = [[], [], [], []]"
  by (simp add: filter_eval)

text \<open>
  C9, as amended. No non-empty line occurs twice in the final file, and the set
  \<open>seen_lines\<close> is the set of the non-empty lines of the file. In every state the filter
  reaches, a line whose trimmed text is in the set is dropped and \<open>duplicate_count\<close>
  grows by one. A line of two words or more that is not spam and whose trimmed text is
  not in the set is written with a line feed and added to the set. Empty lines are not
  deduplicated.
\<close>

theorem exact_dedup:
  "distinct (filter (\<lambda>l. l \<noteq> []) (lines_of (final_file (process_lines_streaming U text))))
   \<and> seen_lines (process_lines_streaming U text)
       = {l \<in> set (lines_of (final_file (process_lines_streaming U text))). l \<noteq> []}
   \<and> (strip raw \<in> seen_lines (foldl (process_line U) filter_init raws) \<longrightarrow>
        process_line U (foldl (process_line U) filter_init raws) raw =
          (foldl (process_line U) filter_init raws)
            \<lparr>total_lines := total_lines (foldl (process_line U) filter_init raws) + 1,
             consecutive_empty := 0,
             duplicate_count := duplicate_count (foldl (process_line U) filter_init raws) + 1\<rparr>)
   \<and> (strip raw \<notin> seen_lines st \<and> multi_word (strip raw) \<and> \<not> spam_line U (strip raw) \<longrightarrow>
        process_line U st raw =
          st\<lparr>total_lines := total_lines st + 1, consecutive_empty := 0,
             seen_lines := insert (strip raw) (seen_lines st),
             final_file := final_file st @ strip raw @ [10]\<rparr>)"
proof (intro conjI impI)
  show "distinct (filter (\<lambda>l. l \<noteq> []) (lines_of (final_file (process_lines_streaming U text))))"
    using run_inv[of U "text"] by (simp add: filter_inv_def)
  show "seen_lines (process_lines_streaming U text)
       = {l \<in> set (lines_of (final_file (process_lines_streaming U text))). l \<noteq> []}"
    using run_inv[of U "text"] by (simp add: filter_inv_def)
next
  let ?st = "foldl (process_line U) filter_init raws"
  assume a: "strip raw \<in> seen_lines ?st"
  have "seen_ok U ?st" by (rule foldl_seen_ok) (simp add: seen_ok_def filter_init_def)
  with a have m: "multi_word (strip raw)" "\<not> spam_line U (strip raw)"
    by (auto simp: seen_ok_def)
  then have "strip raw \<noteq> []" by (auto simp: multi_word_def)
  with a m show "process_line U ?st raw =
      ?st\<lparr>total_lines := total_lines ?st + 1, consecutive_empty := 0,
          duplicate_count := duplicate_count ?st + 1\<rparr>"
    by (simp add: process_line_def Let_def multi_word_def spam_line_def)
next
  assume a: "strip raw \<notin> seen_lines st \<and> multi_word (strip raw) \<and> \<not> spam_line U (strip raw)"
  then have "strip raw \<noteq> []" by (auto simp: multi_word_def)
  with a show "process_line U st raw =
          st\<lparr>total_lines := total_lines st + 1, consecutive_empty := 0,
             seen_lines := insert (strip raw) (seen_lines st),
             final_file := final_file st @ strip raw @ [10]\<rparr>"
    by (auto simp: process_line_def Let_def multi_word_def spam_line_def)
qed

text \<open>
  C9, as stated: the two lines of the input of two line feeds are equal after trimming,
  and both are in the final file.
\<close>

theorem empty_lines_repeat_counterexample:
  "map strip (file_lines [10, 10]) = [[], []]
   \<and> lines_of (final_file (process_lines_streaming ascii_db [10, 10])) = [[], []]"
  by (simp add: filter_eval)

text \<open>
  C9 at Scenario E: \<open>hello world\<close> is kept when first read and dropped as a duplicate
  when read again.
\<close>

theorem exact_dedup_witness:
  "strip (ustr ''hello world\<newline>'') \<in> seen_lines (foldl (process_line ascii_db) filter_init [ustr ''hello world\<newline>''])
   \<and> duplicate_count (process_line ascii_db (foldl (process_line ascii_db) filter_init [ustr ''hello world\<newline>''])
        (ustr ''hello world\<newline>'')) = 1
   \<and> strip (ustr ''hello world\<newline>'') \<notin> seen_lines filter_init
   \<and> multi_word (strip (ustr ''hello world\<newline>''))
   \<and> final_file (process_line ascii_db filter_init (ustr ''hello world\<newline>'')) = ustr ''hello world\<newline>''"
proof -
  have s: "strip (ustr ''hello world\<newline>'') = ustr ''hello world''"
    by (simp add: strip_def ustr_def isspace_def)
  have m: "multi_word (ustr ''hello world'')" "\<not> spam_line ascii_db (ustr ''hello world'')"
    by (simp_all add: multi_word_def spam_line_def ustr_def isspace_def)
  have n: "ustr ''hello world'' \<notin> seen_lines filter_init" by (simp add: filter_init_def)
  have k: "process_line ascii_db filter_init (ustr ''hello world\<newline>'') =
       filter_init\<lparr>total_lines := 1, consecutive_empty := 0, seen_lines := {ustr ''hello world''},
         final_file := ustr ''hello world'' @ [10]\<rparr>"
    using exact_dedup[of ascii_db "[]" "ustr ''hello world\<newline>''" "[]" filter_init] s m n
    by (simp add: filter_init_def)
  have d: "duplicate_count (process_line ascii_db (foldl (process_line ascii_db) filter_init [ustr ''hello world\<newline>''])
        (ustr ''hello world\<newline>'')) = 1"
    using exact_dedup[of ascii_db "[]" "ustr ''hello world\<newline>''" "[ustr ''hello world\<newline>'']" filter_init] s k
    by (simp add: filter_init_def)
  from s m n k d show ?thesis by (simp add: ustr_def)
qed

section \<open>Lines and tokens of a sanitized chunk\<close>

lemma split_nl_Cons:
  "c \<noteq> 10 \<Longrightarrow> split_nl (c # cs) = (c # hd (split_nl cs)) # tl (split_nl cs)"
  using split_nl_nonempty[of cs] by (cases "split_nl cs") auto

lemma split_nl_no_nl: "10 \<notin> set l \<Longrightarrow> split_nl l = [l]"
  by (induction l) (auto split: list.splits)

lemma split_nl_append: "10 \<notin> set l \<Longrightarrow> split_nl (l @ 10 # rest) = l # split_nl rest"
  by (induction l) (auto split: list.splits)

lemma split_nl_join:
  "ls \<noteq> [] \<Longrightarrow> \<forall>l\<in>set ls. 10 \<notin> set l \<Longrightarrow> split_nl (join [10] ls) = ls"
proof (induction "[10::nat]" ls rule: join.induct)
  case 1
  then show ?case by simp
next
  case (2 x)
  then show ?case by (simp add: split_nl_no_nl)
next
  case (3 x y ys)
  then show ?case by (simp add: split_nl_append)
qed

lemma split_nl_dropWhile:
  "split_nl (dropWhile (\<lambda>x. x = 32) cs)
     = dropWhile (\<lambda>x. x = 32) (hd (split_nl cs)) # tl (split_nl cs)"
proof (induction cs)
  case Nil
  then show ?case by simp
next
  case (Cons c cs)
  show ?case
  proof (cases "c = 32")
    case True
    with Cons show ?thesis using split_nl_nonempty[of cs]
      by (cases "split_nl cs") auto
  next
    case False
    then show ?thesis using split_nl_nonempty[of cs]
      by (cases "split_nl cs") (auto split: list.splits)
  qed
qed

lemma split_nl_collapse: "split_nl (collapse_spaces s) = map collapse_spaces (split_nl s)"
proof (induction s rule: collapse_spaces.induct)
  case 1
  then show ?case by simp
next
  case (2 c cs)
  show ?case
  proof (cases "c = 32")
    case True
    with 2 have ih: "split_nl (collapse_spaces (dropWhile (\<lambda>x. x = 32) cs))
        = map collapse_spaces (split_nl (dropWhile (\<lambda>x. x = 32) cs))" by simp
    show ?thesis using True
      by (simp add: split_nl_Cons ih split_nl_dropWhile del: split_nl.simps)
  next
    case False
    with 2 have ih: "split_nl (collapse_spaces cs) = map collapse_spaces (split_nl cs)" by simp
    show ?thesis
    proof (cases "c = 10")
      case True
      then show ?thesis using ih by simp
    next
      case c10: False
      have "split_nl cs \<noteq> []" by (rule split_nl_nonempty)
      then show ?thesis using False c10 ih
        by (cases "split_nl cs") (simp_all add: split_nl_Cons del: split_nl.simps)
    qed
  qed
qed

lemma split_ws_dropWhile32: "split_ws (dropWhile (\<lambda>x. x = 32) cs) = split_ws cs"
  by (induction cs) (auto simp: isspace_def)

lemma takeWhile_collapse:
  "takeWhile (\<lambda>x. \<not> isspace x) (collapse_spaces cs) = takeWhile (\<lambda>x. \<not> isspace x) cs"
  by (induction cs rule: collapse_spaces.induct) (auto simp: isspace_def)

lemma dropWhile_collapse:
  "dropWhile (\<lambda>x. \<not> isspace x) (collapse_spaces cs)
     = collapse_spaces (dropWhile (\<lambda>x. \<not> isspace x) cs)"
  by (induction cs rule: collapse_spaces.induct) (auto simp: isspace_def)

lemma split_ws_collapse: "split_ws (collapse_spaces l) = split_ws l"
proof (induction "length l" arbitrary: l rule: less_induct)
  case less
  show ?case
  proof (cases l)
    case Nil
    then show ?thesis by simp
  next
    case (Cons c cs)
    show ?thesis
    proof (cases "c = 32")
      case True
      have "length (dropWhile (\<lambda>x. x = 32) cs) < length l"
        using Cons length_dropWhile_le[of "\<lambda>x. x = 32" cs] by simp
      from less[OF this] show ?thesis using True Cons
        by (simp add: isspace_def split_ws_dropWhile32)
    next
      case False
      show ?thesis
      proof (cases "isspace c")
        case True
        have "length cs < length l" using Cons by simp
        from less[OF this] show ?thesis using True False Cons by simp
      next
        case ns: False
        have "length (dropWhile (\<lambda>x. \<not> isspace x) cs) < length l"
          using Cons length_dropWhile_le[of "\<lambda>x. \<not> isspace x" cs] by simp
        from less[OF this] show ?thesis using ns False Cons
          by (simp add: takeWhile_collapse dropWhile_collapse)
      qed
    qed
  qed
qed

lemma split_ws_token_first:
  assumes "t \<noteq> []" "\<forall>c\<in>set t. \<not> isspace c"
  shows "split_ws t = [t]" and "isspace s \<Longrightarrow> split_ws (t @ s # rest) = t # split_ws rest"
proof -
  from assms obtain c cs where t: "t = c # cs" by (cases t) auto
  with assms have c: "\<not> isspace c" and cs: "\<forall>x\<in>set cs. \<not> isspace x" by auto
  from cs have tw: "takeWhile (\<lambda>x. \<not> isspace x) cs = cs" "dropWhile (\<lambda>x. \<not> isspace x) cs = []"
    by simp_all
  show "split_ws t = [t]" using t c by (simp add: tw)
  assume s: "isspace s"
  from cs s have "takeWhile (\<lambda>x. \<not> isspace x) (cs @ s # rest) = cs"
    "dropWhile (\<lambda>x. \<not> isspace x) (cs @ s # rest) = s # rest"
    by (simp_all add: takeWhile_append2 dropWhile_append2)
  then show "split_ws (t @ s # rest) = t # split_ws rest" using t c s by simp
qed

lemma split_ws_join:
  "\<forall>t\<in>set ts. t \<noteq> [] \<and> (\<forall>c\<in>set t. \<not> isspace c) \<Longrightarrow> split_ws (join [32] ts) = ts"
proof (induction "[32::nat]" ts rule: join.induct)
  case 1
  then show ?case by simp
next
  case (2 x)
  then show ?case by (simp add: split_ws_token_first(1))
next
  case (3 x y ys)
  have "isspace 32" by (simp add: isspace_def)
  with 3 show ?case by (simp add: split_ws_token_first(2))
qed

lemma dedup_tokens_idem:
  "dedup_tokens U prev (dedup_tokens U prev ts) = dedup_tokens U prev ts"
  by (induction ts arbitrary: prev) auto

lemma dedup_tokens_adjacent:
  "\<forall>t\<in>set ts. t \<noteq> [] \<Longrightarrow> p \<noteq> [] \<Longrightarrow>
     \<not> adjacent_equal U (dedup_tokens U None ts) \<and> \<not> adjacent_equal U (p # dedup_tokens U (Some p) ts)"
proof (induction ts arbitrary: p)
  case Nil
  then show ?case by simp
next
  case (Cons t ts)
  then have t: "t \<noteq> []" and ts: "\<forall>t\<in>set ts. t \<noteq> []" by auto
  from Cons.IH[OF ts t] Cons.IH[OF ts Cons.prems(2)]
  show ?case using Cons.prems(2) by auto
qed

lemma tokens_of_clean_line:
  "split_ws (collapse_spaces (dedup_line U x)) = dedup_tokens U None (split_ws x)"
proof -
  have "\<forall>t\<in>set (dedup_tokens U None (split_ws x)). t \<noteq> [] \<and> (\<forall>c\<in>set t. \<not> isspace c)"
    using set_dedup_tokens[of U None "split_ws x"] split_ws_token[of _ x] by blast
  then have "split_ws (join [32] (dedup_tokens U None (split_ws x))) = dedup_tokens U None (split_ws x)"
    by (rule split_ws_join)
  then show ?thesis by (auto simp: split_ws_collapse dedup_line_def Let_def)
qed

lemma dedup_line_no_nl: "10 \<notin> set (dedup_line U x)"
proof
  assume "10 \<in> set (dedup_line U x)"
  then have "10 \<in> set (join [32] (dedup_tokens U None (split_ws x)))"
    by (auto simp: dedup_line_def Let_def split: if_splits)
  with set_join[of "[32]" "dedup_tokens U None (split_ws x)"]
  obtain t where "t \<in> set (dedup_tokens U None (split_ws x))" "10 \<in> set t" by auto
  with set_dedup_tokens[of U None "split_ws x"] split_ws_token[of t x]
  have "\<not> isspace 10" by blast
  then show False by (simp add: isspace_def)
qed

lemma clean_chunk_lines:
  "split_nl (clean_chunk U chunk) =
     map (\<lambda>x. collapse_spaces (dedup_line U x))
       (split_nl (filter allowed_char (remove_metadata U False chunk)))"
proof -
  let ?ls = "map (dedup_line U) (split_nl (filter allowed_char (remove_metadata U False chunk)))"
  have "?ls \<noteq> []" by (simp add: split_nl_nonempty)
  moreover have "\<forall>l\<in>set ?ls. 10 \<notin> set l" by (auto simp: dedup_line_no_nl)
  ultimately have "split_nl (join [10] ?ls) = ?ls" by (rule split_nl_join)
  then show ?thesis by (simp add: clean_chunk_def Let_def split_nl_collapse)
qed

lemma clean_chunk_line_tokens:
  assumes "line \<in> set (split_nl (clean_chunk U chunk))"
  shows "\<not> adjacent_equal U (split_ws line) \<and> dedup_tokens U None (split_ws line) = split_ws line"
proof -
  from assms obtain x where x: "line = collapse_spaces (dedup_line U x)"
    by (auto simp: clean_chunk_lines)
  have tk: "split_ws line = dedup_tokens U None (split_ws x)"
    by (simp add: x tokens_of_clean_line)
  have "\<forall>t\<in>set (split_ws x). t \<noteq> []" using split_ws_token[of _ x] by blast
  from dedup_tokens_adjacent[OF this, of "[0]" U] tk dedup_tokens_idem[of U None "split_ws x"]
  show ?thesis by simp
qed

section \<open>A repeated word across a chunk boundary\<close>

lemma remove_metadata_spaces:
  "remove_metadata U False (replicate k 32 @ s) = replicate k 32 @ remove_metadata U False s"
  by (induction k) (simp_all add: gutenberg_def ustr_def isword_def)

lemma split_ws_spaces: "split_ws (replicate k 32 @ s) = split_ws s"
  by (induction k) (simp_all add: isspace_def)

lemma clean_chunk_padded: "clean_chunk U (replicate k 32 @ [97]) = [97]"
proof -
  have 1: "remove_metadata U False (replicate k 32 @ [97]) = replicate k 32 @ [97]"
    by (simp add: remove_metadata_spaces gutenberg_def ustr_def isword_def)
  have 2: "filter allowed_char (replicate k 32 @ [97]) = replicate k 32 @ [97]"
    by (simp add: allowed_char_def isspace_def)
  have 3: "split_nl (replicate k 32 @ [97]) = [replicate k 32 @ [97]]"
    by (rule split_nl_no_nl) simp
  have 4: "dedup_line U (replicate k 32 @ [97]) = [97]"
    by (simp add: dedup_line_def split_ws_spaces isspace_def)
  show ?thesis unfolding clean_chunk_def Let_def 1 2 3 by (simp add: 4)
qed

text \<open>
  C7, as stated: \<open>chunk_size - 1\<close> spaces followed by \<open>ab ab\<close>. The first chunk ends
  after the first \<open>a\<close>, the sanitized file is \<open>ab ab\<close>, and its two tokens are equal.
\<close>

theorem chunk_boundary_counterexample:
  "cleaned_file (clean_text_streaming ascii_db (replicate 1048575 32 @ ustr ''ab ab'')) = ustr ''ab ab''
   \<and> adjacent_equal ascii_db (split_ws (ustr ''ab ab''))"
proof -
  have i: "replicate 1048575 32 @ ustr ''ab ab'' = (replicate 1048575 32 @ [97]) @ ustr ''b ab''"
    by (simp add: ustr_def)
  have l: "length (replicate 1048575 32 @ [97::nat]) = chunk_size"
    by (simp add: chunk_size_def)
  have s: "ustr ''b ab'' \<noteq> [] \<and> length (ustr ''b ab'') \<le> chunk_size"
    by (simp add: ustr_def chunk_size_def)
  have c: "clean_chunk ascii_db (ustr ''b ab'') = ustr ''b ab''"
    by (simp add: clean_chunk_def str_eval)
  have "cleaned_file (clean_text_streaming ascii_db ((replicate 1048575 32 @ [97]) @ ustr ''b ab''))
      = clean_chunk ascii_db (replicate 1048575 32 @ [97]) @ clean_chunk ascii_db (ustr ''b ab'')"
    using l s by (intro clean_two_chunks) simp_all
  then have "cleaned_file (clean_text_streaming ascii_db (replicate 1048575 32 @ ustr ''ab ab'')) = ustr ''ab ab''"
    unfolding i by (simp add: clean_chunk_padded c) (simp add: ustr_def)
  moreover have "adjacent_equal ascii_db (split_ws (ustr ''ab ab''))"
    by (simp add: ustr_def isspace_def py_lower_def)
  ultimately show ?thesis by simp
qed

text \<open>
  C7, as amended. In every line of the sanitized text of one chunk no two neighbouring
  tokens are equal in lower case, and the collapse of repeated words leaves the tokens
  of the line as they are; so it is for the whole sanitized file when the input has at
  most \<open>chunk_size\<close> code points. The file is the concatenation of the sanitized chunks,
  and tokens on either side of a chunk boundary are not compared. The collapse is
  idempotent, it keeps the first of two equal tokens as it is written, and
  \<open>The the cat sat.\<close> with its line feed becomes \<open>The cat sat.\<close> with its line feed.
\<close>

theorem sanitizer_dedup:
  "(\<forall>line\<in>set (split_nl (clean_chunk U chunk)).
       \<not> adjacent_equal U (split_ws line) \<and> dedup_tokens U None (split_ws line) = split_ws line)
   \<and> (length inp \<le> chunk_size \<longrightarrow>
       (\<forall>line\<in>set (split_nl (cleaned_file (clean_text_streaming U inp))).
          \<not> adjacent_equal U (split_ws line) \<and> dedup_tokens U None (split_ws line) = split_ws line))
   \<and> cleaned_file (clean_text_streaming U inp) = concat (map (clean_chunk U) (read_chunks chunk_size inp))
   \<and> dedup_tokens U None (dedup_tokens U None ts) = dedup_tokens U None ts
   \<and> (a \<noteq> [] \<and> py_lower U b = py_lower U a \<longrightarrow>
       dedup_tokens U None (a # b # ts) = dedup_tokens U None (a # ts))
   \<and> cleaned_file (clean_text_streaming U (ustr ''The the cat sat.\<newline>'')) = ustr ''The cat sat.\<newline>''"
proof (intro conjI)
  show "\<forall>line\<in>set (split_nl (clean_chunk U chunk)).
       \<not> adjacent_equal U (split_ws line) \<and> dedup_tokens U None (split_ws line) = split_ws line"
    using clean_chunk_line_tokens by blast
  show "length inp \<le> chunk_size \<longrightarrow>
       (\<forall>line\<in>set (split_nl (cleaned_file (clean_text_streaming U inp))).
          \<not> adjacent_equal U (split_ws line) \<and> dedup_tokens U None (split_ws line) = split_ws line)"
  proof (cases "inp = []")
    case True
    then show ?thesis by (simp add: clean_text_streaming_def read_chunks_Nil)
  next
    case False
    then show ?thesis using clean_chunk_line_tokens by (auto simp: clean_one_chunk)
  qed
  show "cleaned_file (clean_text_streaming U inp) = concat (map (clean_chunk U) (read_chunks chunk_size inp))"
    by (simp add: clean_text_streaming_def cleaned_file_foldl)
  show "dedup_tokens U None (dedup_tokens U None ts) = dedup_tokens U None ts"
    by (rule dedup_tokens_idem)
  show "a \<noteq> [] \<and> py_lower U b = py_lower U a \<longrightarrow>
       dedup_tokens U None (a # b # ts) = dedup_tokens U None (a # ts)"
    by simp
  have "clean_chunk U (ustr ''The the cat sat.\<newline>'') = ustr ''The cat sat.\<newline>''"
    by (simp add: clean_chunk_def str_eval)
  moreover have "ustr ''The the cat sat.\<newline>'' \<noteq> [] \<and> length (ustr ''The the cat sat.\<newline>'') \<le> chunk_size"
    by (simp add: ustr_def chunk_size_def)
  ultimately show "cleaned_file (clean_text_streaming U (ustr ''The the cat sat.\<newline>'')) = ustr ''The cat sat.\<newline>''"
    by (simp add: clean_one_chunk)
qed

text \<open>C7 at \<open>A a b\<close>, which is sanitized to \<open>A b\<close>.\<close>

theorem sanitizer_dedup_witness:
  "ustr ''A b'' \<in> set (split_nl (clean_chunk ascii_db (ustr ''A a b'')))
   \<and> \<not> adjacent_equal ascii_db (split_ws (ustr ''A b''))
   \<and> length (ustr ''A a b'') \<le> chunk_size
   \<and> ustr ''A b'' \<in> set (split_nl (cleaned_file (clean_text_streaming ascii_db (ustr ''A a b''))))
   \<and> ustr ''A'' \<noteq> [] \<and> py_lower ascii_db (ustr ''a'') = py_lower ascii_db (ustr ''A'')
   \<and> dedup_tokens ascii_db None [ustr ''A'', ustr ''a'', ustr ''b''] = [ustr ''A'', ustr ''b'']"
proof -
  have l: "length (ustr ''A a b'') \<le> chunk_size" by (simp add: ustr_def chunk_size_def)
  have k: "clean_chunk ascii_db (ustr ''A a b'') = ustr ''A b''"
    by (simp add: clean_chunk_def str_eval)
  have c: "cleaned_file (clean_text_streaming ascii_db (ustr ''A a b'')) = ustr ''A b''"
    using l by (simp add: clean_one_chunk clean_chunk_def str_eval)
  have m: "ustr ''A b'' \<in> set (split_nl (ustr ''A b''))" by (simp add: ustr_def)
  have p: "ustr ''A'' \<noteq> [] \<and> py_lower ascii_db (ustr ''a'') = py_lower ascii_db (ustr ''A'')"
    by (simp add: ustr_def py_lower_def ascii_lower_def)
  from sanitizer_dedup[of ascii_db "ustr ''A a b''" "ustr ''A a b''" "[ustr ''b'']"
      "ustr ''A''" "ustr ''a''"] k m p
  have "\<not> adjacent_equal ascii_db (split_ws (ustr ''A b''))"
    and "dedup_tokens ascii_db None [ustr ''A'', ustr ''a'', ustr ''b'']
         = dedup_tokens ascii_db None [ustr ''A'', ustr ''b'']"
    by auto
  moreover have "dedup_tokens ascii_db None [ustr ''A'', ustr ''b''] = [ustr ''A'', ustr ''b'']"
    by (simp add: ustr_def py_lower_def ascii_lower_def)
  ultimately show ?thesis using l k c m p by simp
qed

end
